theory Spec2Isabelle
  imports Complex_Main "HOL-Library.Sublist" "HOL-Library.Multiset"
begin

section \<open>The plan model of the agent (aideAgentPlanModel.ts)\<close>

subsection \<open>Data\<close>

text \<open>
  Modelled from the spec: the declaration of \<open>IMarkdownString\<close>, which the source
  imports from \<open>base/common/htmlContent\<close>, is missing from the sources. The spec calls
  it "formatted text", "rich text that accumulates over updates". It is the type of an
  object that carries its text, so a value of it is an object reference, whatever the
  text is.
\<close>

record IMarkdownString =
  md_value :: string

text \<open>
  Modelled from the spec: the declaration of \<open>IAideAgentPlanStep\<close>, which the source
  imports from \<open>aideAgentService\<close>, is missing from the sources. The spec: an update
  record is "shaped as: { index: integer, description?: formatted-text, ...other progress
  fields }". The description can be missing from the record (the source tests for it),
  hence the option. The other progress fields live in the record's extension, which
  every function below passes through untouched.
\<close>

record IAideAgentPlanStep =
  index :: int
  description :: "IMarkdownString option"

text \<open>
  What a call raises. \<open>IndexMismatch\<close> is \<open>new Error('Index mismatch')\<close>.
  \<open>TypeError\<close> is what JavaScript raises when the text of a value that is not there
  is read; it stands for the one case the spec leaves open, an append to a step that
  has no description. No property below depends on what happens in that case.
\<close>

datatype error = IndexMismatch | TypeError

text \<open>
  The events of the model. \<open>Emitter\<close> (\<open>base/common/event\<close>) is missing from the
  sources; the model records every call of \<open>fire\<close> with the emitter it is made on:
  a step's \<open>_onDidChange\<close>, a plan's \<open>_onDidChange\<close> (with the payload
  \<open>{ kind: 'addPlanStep', step }\<close>) and a plan's \<open>_onDidDispose\<close>. The fourth
  event is the disposal of a step. Steps are named by their \<open>id\<close>, plans by the
  address of their step array.
\<close>

type_synonym addr = nat

datatype event =
    StepDidChange string
  | PlanDidChange_addPlanStep addr string
  | PlanDidDispose addr
  | StepDisposed string

text \<open>The class \<open>AideAgentPlanStepModel\<close>: its fields, private ones under the prefix \<open>m_\<close>.\<close>

record 'a AideAgentPlanStepModel =
  step_id :: string
  step_sessionId :: string
  m_index :: int
  m_description :: "IMarkdownString option"
  m_parts :: "'a IAideAgentPlanStep_scheme list"
  m_isComplete :: bool

subsection \<open>The step\<close>

text \<open>The decimal digits of a number, as string concatenation \<open>'step_' + n\<close> prints it.\<close>

function string_of_nat :: "nat \<Rightarrow> string" where
  "string_of_nat n =
     (if n < 10 then [char_of (48 + n)]
      else string_of_nat (n div 10) @ [char_of (48 + n mod 10)])"
  by pat_completeness auto
termination
  by (relation "measure (\<lambda>n. n)") auto

text \<open>
  The constructor. It reads and increments the static counter \<open>nextId\<close>, which the model
  passes in and returns.
\<close>

definition new_AideAgentPlanStepModel ::
  "string \<Rightarrow> 'a IAideAgentPlanStep_scheme \<Rightarrow> nat \<Rightarrow> 'a AideAgentPlanStepModel \<times> nat" where
  "new_AideAgentPlanStepModel sessionId initialValue nextId =
     (\<lparr> step_id = ''step_'' @ string_of_nat nextId,
        step_sessionId = sessionId,
        m_index = index initialValue,
        m_description = description initialValue,
        m_parts = [initialValue],
        m_isComplete = False \<rparr>,
      Suc nextId)"

text \<open>
  Modelled from the spec: \<open>appendMarkdownString\<close> of \<open>aideAgentModel.js\<close> is missing from
  the sources. The spec: "the new description fragment is appended to the step's
  accumulated description", "the concatenation-in-order of A and B".
\<close>

definition appendMarkdownString :: "IMarkdownString \<Rightarrow> IMarkdownString \<Rightarrow> IMarkdownString" where
  "appendMarkdownString md1 md2 = \<lparr> md_value = md_value md1 @ md_value md2 \<rparr>"

text \<open>
  \<open>updateStep\<close>. The result is what the call raised (\<open>None\<close> when it returned), the step
  as the call left it, and the events it fired. The guard \<open>!progress.description\<close> is
  JavaScript truthiness of an object reference: it holds exactly when the description is
  missing. A step whose own description is missing (it was built from an update without
  one) has no text to append to.
\<close>

definition updateStep ::
  "'a IAideAgentPlanStep_scheme \<Rightarrow> 'a AideAgentPlanStepModel \<Rightarrow>
     error option \<times> 'a AideAgentPlanStepModel \<times> event list" where
  "updateStep progress this =
     (if m_index this \<noteq> index progress then (Some IndexMismatch, this, [])
      else case description progress of
        None \<Rightarrow> (None, this, [])
      | Some d \<Rightarrow>
          (case m_description this of
             None \<Rightarrow> (Some TypeError, this, [])
           | Some acc \<Rightarrow>
               (None,
                this\<lparr> m_description := Some (appendMarkdownString acc d),
                      m_parts := m_parts this @ [progress] \<rparr>,
                [StepDidChange (step_id this)])))"

subsection \<open>The plan\<close>

text \<open>
  The plan's \<open>_steps\<close> field holds a reference to an array object that \<open>push\<close>
  changes in place and that \<open>getSteps\<close> hands out, so arrays live in a store: the
  contents of every array by address. The store also holds the static counter of step
  ids and the events fired so far, oldest first, and the plans whose emitters were
  released.
\<close>

record 'a store =
  arrays :: "addr \<Rightarrow> 'a AideAgentPlanStepModel list"
  nextAddr :: addr
  nextId :: nat
  fired :: "event list"
  released :: "addr list"

record AideAgentPlanModel =
  sessionId :: string
  m_steps :: addr

text \<open>The constructor: \<open>_steps = []\<close> allocates a new, empty array.\<close>

definition new_AideAgentPlanModel ::
  "string \<Rightarrow> 'a store \<Rightarrow> AideAgentPlanModel \<times> 'a store" where
  "new_AideAgentPlanModel sid st =
     (\<lparr> sessionId = sid, m_steps = nextAddr st \<rparr>,
      st\<lparr> arrays := (arrays st)(nextAddr st := []), nextAddr := Suc (nextAddr st) \<rparr>)"

text \<open>\<open>getSteps\<close> returns the reference held in \<open>_steps\<close>, not a copy of the array.\<close>

definition getSteps :: "AideAgentPlanModel \<Rightarrow> addr" where
  "getSteps this = m_steps this"

text \<open>
  \<open>xs[i]\<close> of JavaScript for an array without holes: \<open>undefined\<close> (here \<open>None\<close>) when
  the index is negative or not below the length.
\<close>

definition array_get :: "'b list \<Rightarrow> int \<Rightarrow> 'b option" where
  "array_get xs i = (if 0 \<le> i \<and> nat i < length xs then Some (xs ! nat i) else None)"

text \<open>
  \<open>updateSteps\<close>. A step object is truthy, so the test \<open>this._steps[progress.index]\<close>
  asks whether the slot is occupied. \<open>createInstance\<close> of the instantiation service
  calls the constructor with the given arguments. The step found in the slot is changed
  in place, which the model writes back into the slot.
\<close>

definition updateSteps ::
  "'a IAideAgentPlanStep_scheme \<Rightarrow> AideAgentPlanModel \<Rightarrow> 'a store \<Rightarrow>
     error option \<times> 'a store" where
  "updateSteps progress this st =
     (let steps = arrays st (m_steps this) in
      case array_get steps (index progress) of
        Some s \<Rightarrow>
          (case updateStep progress s of
             (r, s', evs) \<Rightarrow>
               (r, st\<lparr> arrays := (arrays st)(m_steps this := steps[nat (index progress) := s']),
                        fired := fired st @ evs \<rparr>))
      | None \<Rightarrow>
          (case new_AideAgentPlanStepModel (sessionId this) progress (nextId st) of
             (step, n) \<Rightarrow>
               (None,
                st\<lparr> arrays := (arrays st)(m_steps this := steps @ [step]),
                    nextId := n,
                    fired := fired st @ [PlanDidChange_addPlanStep (m_steps this) (step_id step)] \<rparr>)))"

text \<open>
  The decoder delivers the update records one after the other. The result is what each
  call raised, and the store after the last call; a call that raised has changed nothing
  before it raised, and the next record is delivered to the plan as it is.
\<close>

fun updateAll ::
  "'a IAideAgentPlanStep_scheme list \<Rightarrow> AideAgentPlanModel \<Rightarrow> 'a store \<Rightarrow>
     error option list \<times> 'a store" where
  "updateAll [] this st = ([], st)"
| "updateAll (u # us) this st =
     (case updateSteps u this st of
        (r, st') \<Rightarrow> (case updateAll us this st' of (rs, st'') \<Rightarrow> (r # rs, st'')))"

text \<open>The store before anything is allocated.\<close>

definition empty_store :: "'a store" where
  "empty_store = \<lparr> arrays = (\<lambda>_. []), nextAddr = 0, nextId = 0, fired = [], released = [] \<rparr>"

text \<open>
  Modelled from the spec: a step's \<open>dispose\<close> is inherited from \<open>Disposable\<close>
  (\<open>base/common/lifecycle\<close>), which is missing from the sources. The spec: "releases
  every owned step (each step's own disposal notification fires)".
\<close>

definition AideAgentPlanStepModel_dispose :: "'a AideAgentPlanStepModel \<Rightarrow> event list" where
  "AideAgentPlanStepModel_dispose this = [StepDisposed (step_id this)]"

text \<open>
  Modelled from the spec: \<open>super.dispose()\<close> of the plan is \<open>Disposable.dispose\<close>, missing
  from the sources. The spec: "then releases the notification channels themselves".
\<close>

definition Disposable_dispose :: "AideAgentPlanModel \<Rightarrow> 'a store \<Rightarrow> 'a store" where
  "Disposable_dispose this st = st\<lparr> released := released st @ [m_steps this] \<rparr>"

text \<open>\<open>dispose\<close> of the plan: the \<open>forEach\<close> over the steps, the \<open>fire\<close>, the super call.\<close>

definition dispose :: "AideAgentPlanModel \<Rightarrow> 'a store \<Rightarrow> 'a store" where
  "dispose this st =
     (let st1 = fold (\<lambda>s acc. acc\<lparr> fired := fired acc @ AideAgentPlanStepModel_dispose s \<rparr>)
                  (arrays st (m_steps this)) st;
          st2 = st1\<lparr> fired := fired st1 @ [PlanDidDispose (m_steps this)] \<rparr>
      in Disposable_dispose this st2)"

text \<open>
  The states a step can be in: as the constructor builds it, and as a call of \<open>updateStep\<close>
  leaves it, whether the call returned or raised. Disposal changes no field of the step.
\<close>

inductive reachable_step :: "'a AideAgentPlanStepModel \<Rightarrow> bool" where
  constructed: "reachable_step (fst (new_AideAgentPlanStepModel sid initialValue n))"
| updated: "reachable_step s \<Longrightarrow> reachable_step (fst (snd (updateStep progress s)))"

text \<open>
  The stores a program can reach: plans are constructed, updated and disposed, in any
  order, starting from the empty store.
\<close>

inductive reachable :: "'a store \<Rightarrow> bool" where
  initial: "reachable empty_store"
| plan_constructed: "reachable st \<Longrightarrow> reachable (snd (new_AideAgentPlanModel sid st))"
| steps_updated: "reachable st \<Longrightarrow> reachable (snd (updateSteps progress this st))"
| plan_disposed: "reachable st \<Longrightarrow> reachable (dispose this st)"

text \<open>
  The steps of a plan constructed in the store \<open>st\<close>, read through \<open>getSteps\<close> after
  the update records \<open>us\<close> were delivered to it.
\<close>

definition steps_after ::
  "string \<Rightarrow> 'a store \<Rightarrow> 'a IAideAgentPlanStep_scheme list \<Rightarrow> 'a AideAgentPlanStepModel list" where
  "steps_after sid st us =
     (case new_AideAgentPlanModel sid st of
        (this, st0) \<Rightarrow> arrays (snd (updateAll us this st0)) (getSteps this))"

text \<open>What each of these calls raised, in order.\<close>

definition raised_after ::
  "string \<Rightarrow> 'a store \<Rightarrow> 'a IAideAgentPlanStep_scheme list \<Rightarrow> error option list" where
  "raised_after sid st us =
     (case new_AideAgentPlanModel sid st of
        (this, st0) \<Rightarrow> fst (updateAll us this st0))"

subsection \<open>Vocabulary of the properties\<close>

text \<open>
  Indices delivered in increasing order from 0 without gaps: the first is 0 and each
  next one is the one before or the one after it.
\<close>

fun no_gaps_from :: "int \<Rightarrow> int list \<Rightarrow> bool" where
  "no_gaps_from k [] = True"
| "no_gaps_from k (i # is) = ((i = k \<or> i = k + 1) \<and> no_gaps_from i is)"

definition in_order_from_0 :: "int list \<Rightarrow> bool" where
  "in_order_from_0 is = (case is of [] \<Rightarrow> True | i # rest \<Rightarrow> i = 0 \<and> no_gaps_from 0 rest)"

text \<open>The distinct elements of a list in the order in which they first occur.\<close>

definition first_seen :: "'b list \<Rightarrow> 'b list" where
  "first_seen xs = rev (remdups (rev xs))"

text \<open>The position at which an element first occurs in a list (its length when it does not).\<close>

fun first_pos :: "'b \<Rightarrow> 'b list \<Rightarrow> nat" where
  "first_pos x [] = 0"
| "first_pos x (y # ys) = (if x = y then 0 else Suc (first_pos x ys))"

text \<open>
  What an update does to the indices of the steps in the array: nothing when the slot it
  addresses is occupied, otherwise its index is added at the end.
\<close>

definition place :: "int list \<Rightarrow> int \<Rightarrow> int list" where
  "place xs i = (if 0 \<le> i \<and> nat i < length xs then xs else xs @ [i])"

text \<open>
  The steps' indices are in the order of first observation when the positions at which
  their indices were first observed never decrease along the sequence of steps.
\<close>

definition in_observation_order :: "int list \<Rightarrow> int list \<Rightarrow> bool" where
  "in_observation_order seen idxs = sorted (map (\<lambda>i. first_pos i seen) idxs)"

text \<open>
  What links the indices \<open>S\<close> of the steps to the indices \<open>H\<close> observed so far: every
  step's index was observed; an observed index that has no step addresses an occupied
  slot; and the indices that have a step are, by their first step, in the order in which
  they were first observed.
\<close>

definition seen_inv :: "int list \<Rightarrow> int list \<Rightarrow> bool" where
  "seen_inv H S \<longleftrightarrow>
     set S \<subseteq> set H \<and>
     (\<forall>j\<in>set H. j \<in> set S \<or> (0 \<le> j \<and> nat j < length S)) \<and>
     first_seen S = filter (\<lambda>i. i \<in> set S) (first_seen H)"

section \<open>The semantic search of the sidecar client (client.ts)\<close>

text \<open>
  Modelled from the spec: the declaration of the code spans of the response
  (\<open>sidecar/types\<close>) is missing from the sources. The spec speaks of "nullable relevance
  scores"; the other fields are those \<open>getSemanticSearchResult\<close> reads. A score is a
  number or \<open>null\<close>. Numbers are modelled as reals: the difference of two doubles has
  the sign of the difference of the reals they stand for, and the sort looks at the sign
  of the comparator only.
\<close>

record CodeSpan =
  file_path :: string
  start_line :: int
  end_line :: int
  data :: string
  score :: "real option"

datatype RepoRefBackend = local | github

record RepoRef =
  m_path :: string
  m_backend :: RepoRefBackend

definition getPath :: "RepoRef \<Rightarrow> string" where
  "getPath this = m_path this"

text \<open>
  The result type (\<open>utilities/types\<close>, missing from the sources), with the fields the
  function fills in. No value of the type of the dependencies is built.
\<close>

datatype CodeSymbolKind = CodeSymbolKind_null

typedecl CodeSymbolDependencies

record CodeSnippet =
  languageId :: string
  code :: string

record CodeSymbolInformation =
  symbolName :: string
  symbolKind :: CodeSymbolKind
  symbolStartLine :: int
  symbolEndLine :: int
  codeSnippet :: CodeSnippet
  extraSymbolHint :: "string option"
  dependencies :: "CodeSymbolDependencies list"
  fsFilePath :: string
  originalFilePath :: string
  workingDirectory :: string
  displayName :: string
  originalName :: string
  originalSymbolName :: string
  globalScope :: string

record CodeSymbolInformationEmbeddings =
  codeSymbolInformation :: CodeSymbolInformation
  codeSymbolEmbedding :: "real list"
  fileHash :: string

text \<open>The comparator passed to \<open>sort\<close>, with its tests in the order of the source.\<close>

definition compareFn :: "CodeSpan \<Rightarrow> CodeSpan \<Rightarrow> real" where
  "compareFn a b =
     (if score b \<noteq> None \<and> score a \<noteq> None then the (score b) - the (score a)
      else if score b \<noteq> None \<and> score a = None then 1
      else if score b = None \<and> score a \<noteq> None then - 1
      else 0)"

text \<open>
  \<open>Array.prototype.sort\<close> with a comparator is the language's own: a stable sort, which
  puts an element before another when the comparator is negative for them and keeps the
  order of elements for which it is zero. The model is the stable insertion sort.
\<close>

fun insert_by :: "('b \<Rightarrow> 'b \<Rightarrow> real) \<Rightarrow> 'b \<Rightarrow> 'b list \<Rightarrow> 'b list" where
  "insert_by cmp x [] = [x]"
| "insert_by cmp x (y # ys) = (if cmp x y \<le> 0 then x # y # ys else y # insert_by cmp x ys)"

definition array_sort :: "('b \<Rightarrow> 'b \<Rightarrow> real) \<Rightarrow> 'b list \<Rightarrow> 'b list" where
  "array_sort cmp xs = foldr (insert_by cmp) xs []"

text \<open>
  \<open>getSemanticSearchResult\<close>, from the code spans of the response on: the sort, then
  the \<open>map\<close> to the result records. \<open>path.join\<close> of the platform is a parameter.
\<close>

definition sortedCodeSymbols :: "CodeSpan list \<Rightarrow> CodeSpan list" where
  "sortedCodeSymbols codeSymbols = array_sort compareFn codeSymbols"

definition codeSpan_embedding ::
  "(string \<Rightarrow> string \<Rightarrow> string) \<Rightarrow> RepoRef \<Rightarrow> CodeSpan \<Rightarrow> CodeSymbolInformationEmbeddings" where
  "codeSpan_embedding path_join reporef codeSpan =
     (let filePath = path_join (getPath reporef) (file_path codeSpan) in
      \<lparr> codeSymbolInformation =
          \<lparr> symbolName = [],
            symbolKind = CodeSymbolKind_null,
            symbolStartLine = start_line codeSpan,
            symbolEndLine = end_line codeSpan,
            codeSnippet = \<lparr> languageId = ''typescript'', code = data codeSpan \<rparr>,
            extraSymbolHint = None,
            dependencies = [],
            fsFilePath = filePath,
            originalFilePath = filePath,
            workingDirectory = getPath reporef,
            displayName = [],
            originalName = [],
            originalSymbolName = [],
            globalScope = ''global'' \<rparr>,
        codeSymbolEmbedding = [],
        fileHash = [] \<rparr>)"

definition getSemanticSearchResult ::
  "(string \<Rightarrow> string \<Rightarrow> string) \<Rightarrow> RepoRef \<Rightarrow> CodeSpan list \<Rightarrow>
     CodeSymbolInformationEmbeddings list" where
  "getSemanticSearchResult path_join reporef code_spans =
     map (codeSpan_embedding path_join reporef) (sortedCodeSymbols code_spans)"

text \<open>
  The order the spans are to be in: of two spans with a score, the one with the higher
  or equal score stands first; a span with a score stands before one without; spans
  without a score can stand in any order.
\<close>

definition before :: "CodeSpan \<Rightarrow> CodeSpan \<Rightarrow> bool" where
  "before a b =
     (case (score a, score b) of
        (Some x, Some y) \<Rightarrow> y \<le> x
      | (None, Some y) \<Rightarrow> False
      | (_, None) \<Rightarrow> True)"

section \<open>How an update changes the step array\<close>

declare string_of_nat.simps [simp del]

lemma string_of_nat_0 [simp]: "string_of_nat 0 = ''0''"
  by code_simp

lemma string_of_nat_1 [simp]: "string_of_nat (Suc 0) = ''1''"
  by code_simp

lemma string_of_nat_2 [simp]: "string_of_nat 2 = ''2''"
  by code_simp

lemma m_index_updateStep: "m_index (fst (snd (updateStep u s))) = m_index s"
  by (simp add: updateStep_def split: option.splits)

lemma step_id_updateStep: "step_id (fst (snd (updateStep u s))) = step_id s"
  by (simp add: updateStep_def split: option.splits)

lemma isComplete_updateStep: "m_isComplete (fst (snd (updateStep u s))) = m_isComplete s"
  by (simp add: updateStep_def split: option.splits)

lemma array_get_None: "array_get xs i = None \<longleftrightarrow> \<not> (0 \<le> i \<and> nat i < length xs)"
  by (simp add: array_get_def)

lemma array_get_Some: "array_get xs i = Some x \<longleftrightarrow> 0 \<le> i \<and> nat i < length xs \<and> x = xs ! nat i"
  by (auto simp add: array_get_def)

lemma arrays_updateSteps:
  "arrays (snd (updateSteps u this st)) (m_steps this) =
     (case array_get (arrays st (m_steps this)) (index u) of
        Some s \<Rightarrow> (arrays st (m_steps this))[nat (index u) := fst (snd (updateStep u s))]
      | None \<Rightarrow> arrays st (m_steps this) @
          [fst (new_AideAgentPlanStepModel (sessionId this) u (nextId st))])"
  by (simp add: updateSteps_def Let_def split: option.splits prod.splits)

lemma arrays_updateSteps_other:
  "a \<noteq> m_steps this \<Longrightarrow> arrays (snd (updateSteps u this st)) a = arrays st a"
  by (simp add: updateSteps_def Let_def split: option.splits prod.splits)

lemma indices_updateSteps:
  "map m_index (arrays (snd (updateSteps u this st)) (m_steps this)) =
     place (map m_index (arrays st (m_steps this))) (index u)"
  by (auto simp add: arrays_updateSteps place_def array_get_def map_update m_index_updateStep
      new_AideAgentPlanStepModel_def list_update_same_conv)

lemma snd_updateAll_Cons:
  "snd (updateAll (u # us) this st) = snd (updateAll us this (snd (updateSteps u this st)))"
  by (simp split: prod.splits)

lemma indices_updateAll:
  "map m_index (arrays (snd (updateAll us this st)) (m_steps this)) =
     foldl place (map m_index (arrays st (m_steps this))) (map index us)"
proof (induction us arbitrary: st)
  case Nil
  show ?case by simp
next
  case (Cons u us)
  show ?case
    using Cons.IH [of "snd (updateSteps u this st)"]
    by (simp only: snd_updateAll_Cons indices_updateSteps list.map foldl_Cons)
qed

lemma indices_steps_after:
  "map m_index (steps_after sid st us) = foldl place [] (map index us)"
  using indices_updateAll [of us "fst (new_AideAgentPlanModel sid st)" "snd (new_AideAgentPlanModel sid st)"]
  by (simp add: steps_after_def getSteps_def new_AideAgentPlanModel_def split: prod.splits)


lemma upto_snoc: "0 \<le> k \<Longrightarrow> [0..k] @ [k + 1] = [0..k + 1]"
  by (simp add: upto_rec2)

lemma place_upto_same: "0 \<le> k \<Longrightarrow> place [0..k] k = [0..k]"
  by (simp add: place_def)

lemma place_upto_next: "0 \<le> k \<Longrightarrow> place [0..k] (k + 1) = [0..k + 1]"
  by (simp add: place_def upto_rec2)

lemma foldl_place_no_gaps:
  "0 \<le> k \<Longrightarrow> no_gaps_from k is \<Longrightarrow> foldl place [0..k] is = [0..last (k # is)]"
proof (induction "is" arbitrary: k)
  case Nil
  then show ?case by simp
next
  case (Cons i "is")
  from Cons.prems have "i = k \<or> i = k + 1" and rest: "no_gaps_from i is" by simp_all
  then have step: "place [0..k] i = [0..i]" and "0 \<le> i"
    using Cons.prems(1) by (auto simp add: place_upto_same place_upto_next)
  with Cons.IH [OF \<open>0 \<le> i\<close> rest] show ?case by simp
qed

lemma set_no_gaps:
  "no_gaps_from k is \<Longrightarrow> set (k # is) = {k..last (k # is)}"
proof (induction "is" arbitrary: k)
  case Nil
  then show ?case by simp
next
  case (Cons i "is")
  from Cons.prems have ik: "i = k \<or> i = k + 1" and rest: "no_gaps_from i is" by simp_all
  from Cons.IH [OF rest] have s: "set (i # is) = {i..last (i # is)}" .
  then have "i \<le> last (i # is)" by (metis atLeastAtMost_iff list.set_intros(1))
  with ik s show ?case by auto
qed

lemma foldl_place_in_order:
  assumes "in_order_from_0 is"
  shows "length (foldl place [] is) = card (set is)"
proof (cases "is")
  case Nil
  then show ?thesis by simp
next
  case (Cons i rest)
  with assms have i: "i = 0" and rest: "no_gaps_from 0 rest"
    by (simp_all add: in_order_from_0_def)
  have "place [] 0 = [0..0]" by (simp add: place_def)
  then have "foldl place [] is = [0..last (0 # rest)]"
    using foldl_place_no_gaps [OF _ rest] Cons i by simp
  moreover have "set is = {0..last (0 # rest)}"
    using set_no_gaps [OF rest] Cons i by simp
  ultimately show ?thesis by simp
qed

section \<open>The order of first observation\<close>

lemma first_seen_snoc:
  "first_seen (xs @ [x]) = first_seen xs @ (if x \<in> set xs then [] else [x])"
  by (simp add: first_seen_def)

lemma set_first_seen: "set (first_seen xs) = set xs"
  by (simp add: first_seen_def)

lemma first_seen_distinct: "distinct xs \<Longrightarrow> first_seen xs = xs"
  by (simp add: first_seen_def distinct_remdups_id)

lemma seen_inv_place:
  assumes "seen_inv H S"
  shows "seen_inv (H @ [i]) (place S i)"
proof (cases "0 \<le> i \<and> nat i < length S")
  case True
  then have p: "place S i = S" by (simp add: place_def)
  from assms have sub: "set S \<subseteq> set H" by (simp add: seen_inv_def)
  from assms have fs: "first_seen S = filter (\<lambda>i. i \<in> set S) (first_seen H)"
    by (simp add: seen_inv_def)
  have "first_seen S = filter (\<lambda>j. j \<in> set S) (first_seen (H @ [i]))"
    using sub fs by (auto simp add: first_seen_snoc)
  with assms True p show ?thesis by (auto simp add: seen_inv_def)
next
  case False
  then have p: "place S i = S @ [i]" by (simp add: place_def)
  from assms have sub: "set S \<subseteq> set H"
    and occ: "\<forall>j\<in>set H. j \<in> set S \<or> (0 \<le> j \<and> nat j < length S)"
    and fs: "first_seen S = filter (\<lambda>i. i \<in> set S) (first_seen H)"
    by (simp_all add: seen_inv_def)
  have new: "i \<notin> set S \<Longrightarrow> i \<notin> set H" using occ False by blast
  have "first_seen (S @ [i]) = filter (\<lambda>j. j \<in> set (S @ [i])) (first_seen (H @ [i]))"
  proof (cases "i \<in> set S")
    case True
    then have "i \<in> set H" using sub by blast
    moreover have "(\<lambda>j. j = i \<or> j \<in> set S) = (\<lambda>j. j \<in> set S)" using True by auto
    ultimately show ?thesis using True fs by (simp add: first_seen_snoc)
  next
    case False
    then have nH: "i \<notin> set H" by (rule new)
    then have "filter (\<lambda>j. j = i \<or> j \<in> set S) (first_seen H) = filter (\<lambda>j. j \<in> set S) (first_seen H)"
      by (intro filter_cong) (auto simp add: set_first_seen)
    then show ?thesis using False nH fs by (simp add: first_seen_snoc)
  qed
  moreover have "set (S @ [i]) \<subseteq> set (H @ [i])" using sub by auto
  moreover have "\<forall>j\<in>set (H @ [i]). j \<in> set (S @ [i]) \<or> (0 \<le> j \<and> nat j < length (S @ [i]))"
    using occ by auto
  ultimately show ?thesis unfolding p seen_inv_def by blast
qed

lemma seen_inv_foldl:
  "seen_inv H S \<Longrightarrow> seen_inv (H @ is) (foldl place S is)"
proof (induction "is" arbitrary: H S)
  case Nil
  then show ?case by simp
next
  case (Cons i "is")
  from Cons.IH [OF seen_inv_place [OF Cons.prems, of i]] show ?case by simp
qed

lemma first_seen_foldl_place:
  "first_seen (foldl place [] is) =
     filter (\<lambda>i. i \<in> set (foldl place [] is)) (first_seen is)"
proof -
  have "seen_inv [] []" by (simp add: seen_inv_def first_seen_def)
  from seen_inv_foldl [OF this, of "is"] show ?thesis by (simp add: seen_inv_def)
qed

section \<open>Properties of the step\<close>

text \<open>
  C3. An update whose index differs from the step's own index makes \<open>updateStep\<close> raise
  the index-mismatch error; the step is left exactly as it was (description, progress
  fragments, completion flag and every other field), and no event is fired.
\<close>

theorem updateStep_index_mismatch:
  assumes "index progress \<noteq> m_index this"
  shows "updateStep progress this = (Some IndexMismatch, this, [])"
  using assms by (simp add: updateStep_def)

theorem updateStep_index_mismatch_witness:
  "index \<lparr> index = 1, description = Some \<lparr> md_value = ''B'' \<rparr> \<rparr>
     \<noteq> m_index (fst (new_AideAgentPlanStepModel ''s''
          \<lparr> index = 0, description = Some \<lparr> md_value = ''A'' \<rparr> \<rparr> 0))
   \<and> updateStep \<lparr> index = 1, description = Some \<lparr> md_value = ''B'' \<rparr> \<rparr>
        (fst (new_AideAgentPlanStepModel ''s''
          \<lparr> index = 0, description = Some \<lparr> md_value = ''A'' \<rparr> \<rparr> 0))
      = (Some IndexMismatch,
         fst (new_AideAgentPlanStepModel ''s''
          \<lparr> index = 0, description = Some \<lparr> md_value = ''A'' \<rparr> \<rparr> 0), [])"
proof -
  have h: "index \<lparr> index = 1, description = Some \<lparr> md_value = ''B'' \<rparr> \<rparr>
     \<noteq> m_index (fst (new_AideAgentPlanStepModel ''s''
          \<lparr> index = 0, description = Some \<lparr> md_value = ''A'' \<rparr> \<rparr> 0))"
    by (simp add: new_AideAgentPlanStepModel_def)
  from h updateStep_index_mismatch [OF h] show ?thesis by simp
qed


text \<open>
  C2. A step is created from an update with description A, and a second update with the
  same index and description B is applied by \<open>updateStep\<close>. The call returns; the step's
  description is then the text of A followed by the text of B, its progress fragments
  are the two update records in order (so there are two, the second being the update
  itself), and one change event of the step was fired.
\<close>

theorem two_updates_concatenate:
  assumes "description uA = Some a" and "description uB = Some b" and "index uB = index uA"
  shows "updateStep uB (fst (new_AideAgentPlanStepModel sid uA n)) =
     (None,
      (fst (new_AideAgentPlanStepModel sid uA n))
        \<lparr> m_description := Some \<lparr> md_value = md_value a @ md_value b \<rparr>,
          m_parts := [uA, uB] \<rparr>,
      [StepDidChange (''step_'' @ string_of_nat n)])"
  using assms
  by (simp add: updateStep_def new_AideAgentPlanStepModel_def appendMarkdownString_def)

theorem two_updates_concatenate_witness:
  "updateStep \<lparr> index = 0, description = Some \<lparr> md_value = ''B'' \<rparr> \<rparr>
     (fst (new_AideAgentPlanStepModel ''s'' \<lparr> index = 0, description = Some \<lparr> md_value = ''A'' \<rparr> \<rparr> 0)) =
   (None,
    \<lparr> step_id = ''step_0'', step_sessionId = ''s'', m_index = 0,
      m_description = Some \<lparr> md_value = ''AB'' \<rparr>,
      m_parts = [\<lparr> index = 0, description = Some \<lparr> md_value = ''A'' \<rparr> \<rparr>,
                 \<lparr> index = 0, description = Some \<lparr> md_value = ''B'' \<rparr> \<rparr>],
      m_isComplete = False \<rparr>,
    [StepDidChange ''step_0''])"
  using two_updates_concatenate [of "\<lparr> index = 0, description = Some \<lparr> md_value = ''A'' \<rparr> \<rparr>"
      "\<lparr> md_value = ''A'' \<rparr>" "\<lparr> index = 0, description = Some \<lparr> md_value = ''B'' \<rparr> \<rparr>"
      "\<lparr> md_value = ''B'' \<rparr>" "''s''" 0]
  by (simp add: new_AideAgentPlanStepModel_def)

text \<open>
  C6, as amended. An update that carries the step's own index and no description is a
  no-op: the call returns, the step is unchanged in every field, and no event is fired.
  (An update whose description is present with empty text is not a no-op; see below.)
\<close>

theorem updateStep_without_description:
  assumes "index progress = m_index this" and "description progress = None"
  shows "updateStep progress this = (None, this, [])"
  using assms by (simp add: updateStep_def)

theorem updateStep_without_description_witness:
  "updateStep \<lparr> index = 0, description = None \<rparr>
     (fst (new_AideAgentPlanStepModel ''s'' \<lparr> index = 0, description = Some \<lparr> md_value = ''A'' \<rparr> \<rparr> 0)) =
   (None,
    fst (new_AideAgentPlanStepModel ''s'' \<lparr> index = 0, description = Some \<lparr> md_value = ''A'' \<rparr> \<rparr> 0),
    [])"
  using updateStep_without_description [of "\<lparr> index = 0, description = None \<rparr>"
      "fst (new_AideAgentPlanStepModel ''s'' \<lparr> index = 0, description = Some \<lparr> md_value = ''A'' \<rparr> \<rparr> 0)"]
  by (simp add: new_AideAgentPlanStepModel_def)

text \<open>
  An update that carries the step's own index and a description with empty text: the
  description object is present, so the guard lets it through. The text of the step's
  description stays the same, but the update is added as a second progress fragment and
  a change event is fired.
\<close>

theorem updateStep_empty_description_counterexample:
  "updateStep \<lparr> index = 0, description = Some \<lparr> md_value = '''' \<rparr> \<rparr>
     (fst (new_AideAgentPlanStepModel ''s'' \<lparr> index = 0, description = Some \<lparr> md_value = ''A'' \<rparr> \<rparr> 0)) =
   (None,
    \<lparr> step_id = ''step_0'', step_sessionId = ''s'', m_index = 0,
      m_description = Some \<lparr> md_value = ''A'' \<rparr>,
      m_parts = [\<lparr> index = 0, description = Some \<lparr> md_value = ''A'' \<rparr> \<rparr>,
                 \<lparr> index = 0, description = Some \<lparr> md_value = '''' \<rparr> \<rparr>],
      m_isComplete = False \<rparr>,
    [StepDidChange ''step_0''])"
  by (simp add: updateStep_def new_AideAgentPlanStepModel_def appendMarkdownString_def)

section \<open>Properties of the plan\<close>

text \<open>
  C10. An update addressed to a slot that holds no step makes \<open>updateSteps\<close> build a new
  step, add it at the end of the plan's array and fire the \<open>addPlanStep\<close> event with
  it, whatever the update's description is (missing, empty or not). The new step's
  progress fragments are that update alone, and its description is the update's.
\<close>

theorem updateSteps_creates_step:
  assumes "array_get (arrays st (m_steps this)) (index progress) = None"
  shows "updateSteps progress this st =
     (None,
      st\<lparr> arrays := (arrays st)(m_steps this := arrays st (m_steps this) @
             [fst (new_AideAgentPlanStepModel (sessionId this) progress (nextId st))]),
          nextId := Suc (nextId st),
          fired := fired st @ [PlanDidChange_addPlanStep (m_steps this)
             (step_id (fst (new_AideAgentPlanStepModel (sessionId this) progress (nextId st))))] \<rparr>)
   \<and> m_parts (fst (new_AideAgentPlanStepModel (sessionId this) progress (nextId st))) = [progress]
   \<and> m_description (fst (new_AideAgentPlanStepModel (sessionId this) progress (nextId st)))
       = description progress"
  using assms by (simp add: updateSteps_def Let_def new_AideAgentPlanStepModel_def)

theorem updateSteps_creates_step_witness:
  "array_get (arrays (empty_store :: unit store) (m_steps \<lparr> sessionId = ''s'', m_steps = 0 \<rparr>))
      (index \<lparr> index = 0, description = None \<rparr>) = None
   \<and> updateSteps \<lparr> index = 0, description = None \<rparr> \<lparr> sessionId = ''s'', m_steps = 0 \<rparr>
        (empty_store :: unit store) =
      (None,
       empty_store\<lparr> arrays := (arrays empty_store)(0 :=
            [\<lparr> step_id = ''step_0'', step_sessionId = ''s'', m_index = 0, m_description = None,
               m_parts = [\<lparr> index = 0, description = None \<rparr>], m_isComplete = False \<rparr>]),
          nextId := 1,
          fired := [PlanDidChange_addPlanStep 0 ''step_0''] \<rparr>)"
proof -
  have h: "array_get (arrays (empty_store :: unit store) (m_steps \<lparr> sessionId = ''s'', m_steps = 0 \<rparr>))
      (index \<lparr> index = 0, description = None \<rparr>) = None"
    by (simp add: array_get_def empty_store_def)
  from h updateSteps_creates_step [OF h] show ?thesis
    by (simp add: new_AideAgentPlanStepModel_def empty_store_def)
qed


lemma fold_dispose_fired:
  "fired (fold (\<lambda>s acc. acc\<lparr> fired := fired acc @ AideAgentPlanStepModel_dispose s \<rparr>) xs st) =
     fired st @ map (\<lambda>s. StepDisposed (step_id s)) xs"
  by (induction xs arbitrary: st) (simp_all add: AideAgentPlanStepModel_dispose_def)

lemma fold_dispose_arrays:
  "arrays (fold (\<lambda>s acc. acc\<lparr> fired := fired acc @ AideAgentPlanStepModel_dispose s \<rparr>) xs st) =
     arrays st"
  by (induction xs arbitrary: st) simp_all

lemma fold_dispose_released:
  "released (fold (\<lambda>s acc. acc\<lparr> fired := fired acc @ AideAgentPlanStepModel_dispose s \<rparr>) xs st) =
     released st"
  by (induction xs arbitrary: st) simp_all

lemma arrays_dispose: "arrays (dispose this st) = arrays st"
  by (simp add: dispose_def Let_def Disposable_dispose_def fold_dispose_arrays)

text \<open>
  C4. Disposing a plan that holds N steps adds to the events, in this order: one disposal
  event per step, N in all, in the order of the steps, each from that step's own
  disposal; then one disposal event of the plan. After that the plan's emitters are
  released.
\<close>

theorem dispose_events:
  "fired (dispose this st) =
     fired st @ map (\<lambda>s. StepDisposed (step_id s)) (arrays st (getSteps this))
       @ [PlanDidDispose (m_steps this)]
   \<and> length (map (\<lambda>s. StepDisposed (step_id s)) (arrays st (getSteps this)))
       = length (arrays st (getSteps this))
   \<and> released (dispose this st) = released st @ [m_steps this]"
  by (simp add: dispose_def Let_def Disposable_dispose_def fold_dispose_fired
      fold_dispose_released getSteps_def)

text \<open>
  C5, as amended. \<open>getSteps\<close> returns the plan's own array by reference, not a snapshot.
  After a later call of \<open>updateSteps\<close>, the array obtained before the call holds the
  plan's steps as the call left them: the step in the addressed slot as \<open>updateStep\<close>
  left it, or else the earlier steps followed by the new step.
\<close>

theorem getSteps_is_live:
  "arrays (snd (updateSteps progress this st)) (getSteps this) =
     (case array_get (arrays st (getSteps this)) (index progress) of
        Some s \<Rightarrow> (arrays st (getSteps this))[nat (index progress) := fst (snd (updateStep progress s))]
      | None \<Rightarrow> arrays st (getSteps this) @
          [fst (new_AideAgentPlanStepModel (sessionId this) progress (nextId st))])"
  unfolding getSteps_def by (rule arrays_updateSteps)

text \<open>
  The array obtained from \<open>getSteps\<close> of a new plan is empty; after one update of the
  plan the same array is not what it was.
\<close>

theorem getSteps_snapshot_counterexample:
  "arrays (snd (updateSteps \<lparr> index = 0, description = Some \<lparr> md_value = ''A'' \<rparr> \<rparr>
              (fst (new_AideAgentPlanModel ''s'' (empty_store :: unit store)))
              (snd (new_AideAgentPlanModel ''s'' (empty_store :: unit store)))))
      (getSteps (fst (new_AideAgentPlanModel ''s'' (empty_store :: unit store))))
   \<noteq> arrays (snd (new_AideAgentPlanModel ''s'' (empty_store :: unit store)))
      (getSteps (fst (new_AideAgentPlanModel ''s'' (empty_store :: unit store))))"
  by (simp add: getSteps_def updateSteps_def Let_def new_AideAgentPlanModel_def empty_store_def
      array_get_def new_AideAgentPlanStepModel_def)

lemma reachable_step_not_complete: "reachable_step s \<Longrightarrow> \<not> m_isComplete s"
  by (induction rule: reachable_step.induct)
    (simp_all add: new_AideAgentPlanStepModel_def isComplete_updateStep)

lemma reachable_steps:
  "reachable st \<Longrightarrow> s \<in> set (arrays st a) \<Longrightarrow> reachable_step s"
proof (induction arbitrary: s a rule: reachable.induct)
  case initial
  then show ?case by (simp add: empty_store_def)
next
  case (plan_constructed st sid)
  then show ?case by (auto simp add: new_AideAgentPlanModel_def split: if_splits)
next
  case (steps_updated st progress this)
  show ?case
  proof (cases "a = m_steps this")
    case False
    with steps_updated show ?thesis by (simp add: arrays_updateSteps_other)
  next
    case True
    let ?xs = "arrays st (m_steps this)"
    show ?thesis
    proof (cases "array_get ?xs (index progress)")
      case None
      with steps_updated.prems True
      have "s \<in> set ?xs \<or> s = fst (new_AideAgentPlanStepModel (sessionId this) progress (nextId st))"
        by (auto simp add: arrays_updateSteps)
      then show ?thesis using steps_updated.IH reachable_step.constructed by blast
    next
      case (Some x)
      then have x: "x \<in> set ?xs" by (auto simp add: array_get_def split: if_splits)
      from Some steps_updated.prems True
      have "s \<in> set (?xs[nat (index progress) := fst (snd (updateStep progress x))])"
        by (simp add: arrays_updateSteps)
      then have "s \<in> set ?xs \<or> s = fst (snd (updateStep progress x))"
        using set_update_subset_insert by fastforce
      then show ?thesis
        using steps_updated.IH x reachable_step.updated by blast
    qed
  qed
next
  case (plan_disposed st this)
  then show ?case by (simp add: arrays_dispose)
qed

text \<open>
  C9. The completion flag is false in every state a step can reach by its constructor
  and \<open>updateStep\<close>, and so in every step of every plan in every reachable store.
\<close>

theorem isComplete_never_set:
  "(reachable_step s \<longrightarrow> \<not> m_isComplete s)
   \<and> (reachable st \<longrightarrow> (\<forall>s' \<in> set (arrays st a). \<not> m_isComplete s'))"
proof (intro conjI impI ballI)
  assume "reachable_step s"
  then show "\<not> m_isComplete s" by (rule reachable_step_not_complete)
next
  fix s'
  assume "reachable st" and "s' \<in> set (arrays st a)"
  then have "reachable_step s'" by (rule reachable_steps)
  then show "\<not> m_isComplete s'" by (rule reachable_step_not_complete)
qed

theorem isComplete_never_set_witness:
  "reachable_step (fst (snd (updateStep \<lparr> index = 0, description = Some \<lparr> md_value = ''B'' \<rparr> \<rparr>
      (fst (new_AideAgentPlanStepModel ''s'' \<lparr> index = 0, description = Some \<lparr> md_value = ''A'' \<rparr> \<rparr> 0)))))
   \<and> \<not> m_isComplete (fst (snd (updateStep \<lparr> index = 0, description = Some \<lparr> md_value = ''B'' \<rparr> \<rparr>
      (fst (new_AideAgentPlanStepModel ''s'' \<lparr> index = 0, description = Some \<lparr> md_value = ''A'' \<rparr> \<rparr> 0)))))
   \<and> reachable (snd (updateSteps \<lparr> index = 0, description = Some \<lparr> md_value = ''A'' \<rparr> \<rparr>
       (fst (new_AideAgentPlanModel ''s'' (empty_store :: unit store)))
       (snd (new_AideAgentPlanModel ''s'' (empty_store :: unit store)))))
   \<and> list_all (\<lambda>s'. \<not> m_isComplete s')
       (arrays (snd (updateSteps \<lparr> index = 0, description = Some \<lparr> md_value = ''A'' \<rparr> \<rparr>
          (fst (new_AideAgentPlanModel ''s'' (empty_store :: unit store)))
          (snd (new_AideAgentPlanModel ''s'' (empty_store :: unit store))))) 0)
   \<and> length (arrays (snd (updateSteps \<lparr> index = 0, description = Some \<lparr> md_value = ''A'' \<rparr> \<rparr>
          (fst (new_AideAgentPlanModel ''s'' (empty_store :: unit store)))
          (snd (new_AideAgentPlanModel ''s'' (empty_store :: unit store))))) 0) = 1"
proof -
  let ?s = "fst (snd (updateStep \<lparr> index = 0, description = Some \<lparr> md_value = ''B'' \<rparr> \<rparr>
      (fst (new_AideAgentPlanStepModel ''s'' \<lparr> index = 0, description = Some \<lparr> md_value = ''A'' \<rparr> \<rparr> 0))))"
  let ?st = "snd (updateSteps \<lparr> index = 0, description = Some \<lparr> md_value = ''A'' \<rparr> \<rparr>
       (fst (new_AideAgentPlanModel ''s'' (empty_store :: unit store)))
       (snd (new_AideAgentPlanModel ''s'' (empty_store :: unit store))))"
  have r1: "reachable_step ?s"
    by (rule reachable_step.updated) (rule reachable_step.constructed)
  have r2: "reachable ?st"
    by (rule reachable.steps_updated) (rule reachable.plan_constructed, rule reachable.initial)
  have len: "length (arrays ?st 0) = 1"
    by (simp add: updateSteps_def Let_def new_AideAgentPlanModel_def empty_store_def
        array_get_def new_AideAgentPlanStepModel_def)
  from isComplete_never_set [of ?s ?st 0] r1 r2
  have "\<not> m_isComplete ?s" and "\<forall>s' \<in> set (arrays ?st 0). \<not> m_isComplete s'" by blast+
  with r1 r2 len show ?thesis by (simp add: list_all_iff)
qed

section \<open>Sequences of updates\<close>

lemma step_ids_updateSteps:
  "map step_id (arrays (snd (updateSteps u this st)) (m_steps this)) =
     (case array_get (arrays st (m_steps this)) (index u) of
        Some s \<Rightarrow> map step_id (arrays st (m_steps this))
      | None \<Rightarrow> map step_id (arrays st (m_steps this)) @
          [step_id (fst (new_AideAgentPlanStepModel (sessionId this) u (nextId st)))])"
  by (auto simp add: arrays_updateSteps array_get_def map_update step_id_updateStep
      list_update_same_conv)

lemma no_mismatch_updateSteps:
  assumes "map m_index (arrays st (m_steps this)) = [0..k]" and "0 \<le> k"
    and "index u = k \<or> index u = k + 1"
  shows "fst (updateSteps u this st) \<noteq> Some IndexMismatch"
proof -
  let ?xs = "arrays st (m_steps this)"
  from assms(1) have "length (map m_index ?xs) = length [0..k]" by simp
  with assms(2) have len: "length ?xs = nat (k + 1)" by simp
  from assms(3) show ?thesis
  proof
    assume ik: "index u = k"
    with len assms(2) have g: "array_get ?xs (index u) = Some (?xs ! nat k)"
      by (simp add: array_get_def)
    have "m_index (?xs ! nat k) = map m_index ?xs ! nat k"
      using len assms(2) by simp
    also have "\<dots> = k" using assms(1,2) by (simp add: nth_upto)
    finally have "m_index (?xs ! nat k) = index u" using ik by simp
    then show ?thesis using g
      by (simp add: updateSteps_def Let_def updateStep_def split: option.splits)
  next
    assume "index u = k + 1"
    with len assms(2) have "array_get ?xs (index u) = None" by (simp add: array_get_def)
    then show ?thesis
      by (simp add: updateSteps_def Let_def split: prod.splits)
  qed
qed

lemma fst_updateAll_Cons:
  "fst (updateAll (u # us) this st) =
     fst (updateSteps u this st) # fst (updateAll us this (snd (updateSteps u this st)))"
  by (simp split: prod.splits)

lemma no_mismatch_updateAll:
  "0 \<le> k \<Longrightarrow> map m_index (arrays st (m_steps this)) = [0..k] \<Longrightarrow>
     no_gaps_from k (map index us) \<Longrightarrow>
     Some IndexMismatch \<notin> set (fst (updateAll us this st))"
proof (induction us arbitrary: k st)
  case Nil
  then show ?case by simp
next
  case (Cons u us)
  from Cons.prems(3) have ik: "index u = k \<or> index u = k + 1"
    and rest: "no_gaps_from (index u) (map index us)" by simp_all
  from ik Cons.prems(1) have nonneg: "0 \<le> index u" by auto
  have "map m_index (arrays (snd (updateSteps u this st)) (m_steps this)) = place [0..k] (index u)"
    by (simp add: indices_updateSteps Cons.prems(2))
  also have "\<dots> = [0..index u]"
    using ik Cons.prems(1) by (auto simp add: place_upto_same place_upto_next)
  finally have "Some IndexMismatch \<notin> set (fst (updateAll us this (snd (updateSteps u this st))))"
    using Cons.IH [OF nonneg _ rest] by blast
  moreover have "fst (updateSteps u this st) \<noteq> Some IndexMismatch"
    using no_mismatch_updateSteps [OF Cons.prems(2) Cons.prems(1) ik] .
  ultimately show ?case by (simp only: fst_updateAll_Cons set_simps) auto
qed

lemma no_mismatch_raised_after:
  assumes "in_order_from_0 (map index us)"
  shows "Some IndexMismatch \<notin> set (raised_after sid st us)"
proof (cases us)
  case Nil
  then show ?thesis by (simp add: raised_after_def new_AideAgentPlanModel_def)
next
  case (Cons u rest)
  with assms have u0: "index u = 0" and rest: "no_gaps_from 0 (map index rest)"
    by (simp_all add: in_order_from_0_def)
  let ?p = "fst (new_AideAgentPlanModel sid st)"
  let ?st0 = "snd (new_AideAgentPlanModel sid st)"
  have empty: "arrays ?st0 (m_steps ?p) = []"
    by (simp add: new_AideAgentPlanModel_def)
  then have first: "fst (updateSteps u ?p ?st0) = None"
    by (simp add: updateSteps_def Let_def array_get_def split: prod.splits)
  have "map m_index (arrays (snd (updateSteps u ?p ?st0)) (m_steps ?p)) = [0..0]"
    using empty u0 by (simp add: indices_updateSteps place_def)
  from no_mismatch_updateAll [OF _ this rest]
  have "Some IndexMismatch \<notin> set (fst (updateAll rest ?p (snd (updateSteps u ?p ?st0))))"
    by simp
  with first have "Some IndexMismatch \<notin> set (fst (updateAll us ?p ?st0))"
    unfolding Cons by (simp only: fst_updateAll_Cons set_simps) auto
  then show ?thesis by (simp add: raised_after_def case_prod_beta)
qed

text \<open>
  C1, as amended. When the update records are delivered to a new plan in increasing
  index order from 0 without gaps (the first index is 0, each next index is the one
  before or the one after it), the plan then has as many steps as there are distinct
  indices among the records, and no call raised the index-mismatch error.
\<close>

theorem step_count_in_order:
  assumes "in_order_from_0 (map index us)"
  shows "length (steps_after sid st us) = card (set (map index us))
    \<and> Some IndexMismatch \<notin> set (raised_after sid st us)"
proof
  have "length (steps_after sid st us) = length (map m_index (steps_after sid st us))" by simp
  also have "\<dots> = card (set (map index us))"
    by (simp only: indices_steps_after foldl_place_in_order [OF assms])
  finally show "length (steps_after sid st us) = card (set (map index us))" .
  show "Some IndexMismatch \<notin> set (raised_after sid st us)"
    using assms by (rule no_mismatch_raised_after)
qed


theorem step_count_in_order_witness:
  "in_order_from_0 (map index
      [\<lparr> index = 0, description = Some \<lparr> md_value = ''Step one'' \<rparr> \<rparr>,
       \<lparr> index = 0, description = Some \<lparr> md_value = '' continues'' \<rparr> \<rparr>,
       \<lparr> index = 1, description = Some \<lparr> md_value = ''Step two'' \<rparr> \<rparr>])
   \<and> length (steps_after ''s'' (empty_store :: unit store)
      [\<lparr> index = 0, description = Some \<lparr> md_value = ''Step one'' \<rparr> \<rparr>,
       \<lparr> index = 0, description = Some \<lparr> md_value = '' continues'' \<rparr> \<rparr>,
       \<lparr> index = 1, description = Some \<lparr> md_value = ''Step two'' \<rparr> \<rparr>]) = 2
   \<and> Some IndexMismatch \<notin> set (raised_after ''s'' (empty_store :: unit store)
      [\<lparr> index = 0, description = Some \<lparr> md_value = ''Step one'' \<rparr> \<rparr>,
       \<lparr> index = 0, description = Some \<lparr> md_value = '' continues'' \<rparr> \<rparr>,
       \<lparr> index = 1, description = Some \<lparr> md_value = ''Step two'' \<rparr> \<rparr>])"
proof -
  let ?us = "[\<lparr> index = 0, description = Some \<lparr> md_value = ''Step one'' \<rparr> \<rparr>,
       \<lparr> index = 0, description = Some \<lparr> md_value = '' continues'' \<rparr> \<rparr>,
       \<lparr> index = 1, description = Some \<lparr> md_value = ''Step two'' \<rparr> \<rparr>]"
  have h: "in_order_from_0 (map index ?us)" by (simp add: in_order_from_0_def)
  have c: "card (set (map index ?us)) = 2" by simp
  from h c step_count_in_order [OF h, of "''s''" "empty_store :: unit store"]
  show ?thesis by simp
qed

text \<open>
  The indices 0, 2, 2 are in increasing order from 0. Each of the three updates finds its
  slot empty (slot 2 is empty while the array has fewer than three steps), so the plan
  ends with three steps for two distinct indices; no call raises.
\<close>

theorem step_count_gap_counterexample:
  "sorted (map index
      [\<lparr> index = 0, description = Some \<lparr> md_value = ''a'' \<rparr> \<rparr>,
       \<lparr> index = 2, description = Some \<lparr> md_value = ''b'' \<rparr> \<rparr>,
       \<lparr> index = 2, description = Some \<lparr> md_value = ''c'' \<rparr> \<rparr>])
   \<and> hd (map index
      [\<lparr> index = 0, description = Some \<lparr> md_value = ''a'' \<rparr> \<rparr>,
       \<lparr> index = 2, description = Some \<lparr> md_value = ''b'' \<rparr> \<rparr>,
       \<lparr> index = 2, description = Some \<lparr> md_value = ''c'' \<rparr> \<rparr>]) = 0
   \<and> length (steps_after ''s'' (empty_store :: unit store)
      [\<lparr> index = 0, description = Some \<lparr> md_value = ''a'' \<rparr> \<rparr>,
       \<lparr> index = 2, description = Some \<lparr> md_value = ''b'' \<rparr> \<rparr>,
       \<lparr> index = 2, description = Some \<lparr> md_value = ''c'' \<rparr> \<rparr>]) = 3
   \<and> card (set (map index
      [\<lparr> index = 0, description = Some \<lparr> md_value = ''a'' \<rparr> \<rparr>,
       \<lparr> index = 2, description = Some \<lparr> md_value = ''b'' \<rparr> \<rparr>,
       \<lparr> index = 2, description = Some \<lparr> md_value = ''c'' \<rparr> \<rparr>])) = 2
   \<and> raised_after ''s'' (empty_store :: unit store)
      [\<lparr> index = 0, description = Some \<lparr> md_value = ''a'' \<rparr> \<rparr>,
       \<lparr> index = 2, description = Some \<lparr> md_value = ''b'' \<rparr> \<rparr>,
       \<lparr> index = 2, description = Some \<lparr> md_value = ''c'' \<rparr> \<rparr>] = [None, None, None]"
  by (simp add: steps_after_def raised_after_def new_AideAgentPlanModel_def empty_store_def
      getSteps_def updateSteps_def Let_def array_get_def new_AideAgentPlanStepModel_def)

lemma prefix_step_ids:
  "prefix (map step_id (arrays st (m_steps this)))
     (map step_id (arrays (snd (updateSteps progress this st)) (m_steps this)))"
  by (simp add: step_ids_updateSteps split: option.splits)

lemma distinct_foldl_place_in_order:
  assumes "in_order_from_0 is"
  shows "distinct (foldl place [] is) \<and> set (foldl place [] is) = set is"
proof (cases "is")
  case Nil
  then show ?thesis by simp
next
  case (Cons i rest)
  with assms have i: "i = 0" and rest: "no_gaps_from 0 rest"
    by (simp_all add: in_order_from_0_def)
  have "place [] 0 = [0..0]" by (simp add: place_def)
  then have "foldl place [] is = [0..last (0 # rest)]"
    using foldl_place_no_gaps [OF _ rest] Cons i by simp
  moreover have "set is = {0..last (0 # rest)}"
    using set_no_gaps [OF rest] Cons i by simp
  ultimately show ?thesis by simp
qed

lemma foldl_place_first_seen:
  assumes "in_order_from_0 is"
  shows "foldl place [] is = first_seen is"
proof -
  let ?S = "foldl place [] is"
  from distinct_foldl_place_in_order [OF assms]
  have d: "distinct ?S" and s: "set ?S = set is" by simp_all
  have "?S = first_seen ?S" using d by (simp add: first_seen_distinct)
  also have "\<dots> = filter (\<lambda>i. i \<in> set ?S) (first_seen is)"
    by (rule first_seen_foldl_place)
  also have "\<dots> = first_seen is"
    by (rule filter_True) (simp add: s set_first_seen)
  finally show ?thesis .
qed

text \<open>
  C7, as amended. No operation reorders or removes steps: an update leaves the steps in
  place or adds one new step at the end, and disposal leaves the arrays as they are. In
  every plan state reached from a new plan, the indices that have a step stand, by their
  first step, in the order in which they were first observed among the updates. When
  the updates came in increasing index order from 0 without gaps, the steps' indices are
  exactly the observed indices in the order of first observation. (Otherwise an observed
  index can have no step, or more than one.)
\<close>

theorem steps_in_observation_order:
  "prefix (map step_id (arrays st (m_steps this)))
     (map step_id (arrays (snd (updateSteps progress this st)) (m_steps this)))
   \<and> arrays (dispose this st) = arrays st
   \<and> first_seen (map m_index (steps_after sid st' us)) =
       filter (\<lambda>i. i \<in> set (map m_index (steps_after sid st' us))) (first_seen (map index us))
   \<and> (in_order_from_0 (map index us) \<longrightarrow>
        map m_index (steps_after sid st' us) = first_seen (map index us))"
proof (intro conjI impI)
  show "prefix (map step_id (arrays st (m_steps this)))
     (map step_id (arrays (snd (updateSteps progress this st)) (m_steps this)))"
    by (rule prefix_step_ids)
  show "arrays (dispose this st) = arrays st" by (rule arrays_dispose)
  show "first_seen (map m_index (steps_after sid st' us)) =
       filter (\<lambda>i. i \<in> set (map m_index (steps_after sid st' us))) (first_seen (map index us))"
    by (simp only: indices_steps_after first_seen_foldl_place)
  assume "in_order_from_0 (map index us)"
  then show "map m_index (steps_after sid st' us) = first_seen (map index us)"
    by (simp only: indices_steps_after foldl_place_first_seen)
qed

theorem steps_in_observation_order_witness:
  "in_order_from_0 (map index
      [\<lparr> index = 0, description = Some \<lparr> md_value = ''Step one'' \<rparr> \<rparr>,
       \<lparr> index = 0, description = Some \<lparr> md_value = '' continues'' \<rparr> \<rparr>,
       \<lparr> index = 1, description = Some \<lparr> md_value = ''Step two'' \<rparr> \<rparr>])
   \<and> map m_index (steps_after ''s'' (empty_store :: unit store)
      [\<lparr> index = 0, description = Some \<lparr> md_value = ''Step one'' \<rparr> \<rparr>,
       \<lparr> index = 0, description = Some \<lparr> md_value = '' continues'' \<rparr> \<rparr>,
       \<lparr> index = 1, description = Some \<lparr> md_value = ''Step two'' \<rparr> \<rparr>]) = [0, 1]"
proof -
  let ?us = "[\<lparr> index = 0, description = Some \<lparr> md_value = ''Step one'' \<rparr> \<rparr>,
       \<lparr> index = 0, description = Some \<lparr> md_value = '' continues'' \<rparr> \<rparr>,
       \<lparr> index = 1, description = Some \<lparr> md_value = ''Step two'' \<rparr> \<rparr>]"
  have h: "in_order_from_0 (map index ?us)" by (simp add: in_order_from_0_def)
  have f: "first_seen (map index ?us) = [0, 1]" by (simp add: first_seen_def)
  from steps_in_observation_order [of "empty_store :: unit store" "\<lparr> sessionId = ''s'', m_steps = 0 \<rparr>"
      "\<lparr> index = 0, description = None \<rparr>" "''s''" "empty_store :: unit store" ?us] h f
  show ?thesis by simp
qed

text \<open>
  The updates with indices 5, 3, 5 each find their slot empty. The plan ends with three
  steps of indices 5, 3, 5: the third step, whose index was observed first, stands after
  the step of index 3, which was observed second. No call raises.
\<close>

theorem observation_order_counterexample:
  "map m_index (steps_after ''s'' (empty_store :: unit store)
      [\<lparr> index = 5, description = Some \<lparr> md_value = ''a'' \<rparr> \<rparr>,
       \<lparr> index = 3, description = Some \<lparr> md_value = ''b'' \<rparr> \<rparr>,
       \<lparr> index = 5, description = Some \<lparr> md_value = ''c'' \<rparr> \<rparr>]) = [5, 3, 5]
   \<and> first_seen (map index
      [\<lparr> index = 5, description = Some \<lparr> md_value = ''a'' \<rparr> \<rparr>,
       \<lparr> index = 3, description = Some \<lparr> md_value = ''b'' \<rparr> \<rparr>,
       \<lparr> index = 5, description = Some \<lparr> md_value = ''c'' \<rparr> \<rparr>]) = [5, 3]
   \<and> \<not> in_observation_order
      (map index
        [\<lparr> index = 5, description = Some \<lparr> md_value = ''a'' \<rparr> \<rparr>,
         \<lparr> index = 3, description = Some \<lparr> md_value = ''b'' \<rparr> \<rparr>,
         \<lparr> index = 5, description = Some \<lparr> md_value = ''c'' \<rparr> \<rparr>])
      (map m_index (steps_after ''s'' (empty_store :: unit store)
        [\<lparr> index = 5, description = Some \<lparr> md_value = ''a'' \<rparr> \<rparr>,
         \<lparr> index = 3, description = Some \<lparr> md_value = ''b'' \<rparr> \<rparr>,
         \<lparr> index = 5, description = Some \<lparr> md_value = ''c'' \<rparr> \<rparr>]))
   \<and> raised_after ''s'' (empty_store :: unit store)
      [\<lparr> index = 5, description = Some \<lparr> md_value = ''a'' \<rparr> \<rparr>,
       \<lparr> index = 3, description = Some \<lparr> md_value = ''b'' \<rparr> \<rparr>,
       \<lparr> index = 5, description = Some \<lparr> md_value = ''c'' \<rparr> \<rparr>] = [None, None, None]"
  by (simp add: steps_after_def raised_after_def new_AideAgentPlanModel_def empty_store_def
      getSteps_def updateSteps_def Let_def array_get_def new_AideAgentPlanStepModel_def
      first_seen_def in_observation_order_def)

section \<open>The sort of the code spans\<close>

lemma compareFn_before: "compareFn a b \<le> 0 \<longleftrightarrow> before a b"
  by (auto simp add: compareFn_def before_def split: option.splits)

lemma compareFn_total: "compareFn a b \<le> 0 \<or> compareFn b a \<le> 0"
  by (auto simp add: compareFn_def)

lemma compareFn_trans: "compareFn a b \<le> 0 \<Longrightarrow> compareFn b c \<le> 0 \<Longrightarrow> compareFn a c \<le> 0"
  by (auto simp add: compareFn_def split: if_splits)

lemma compareFn_equal: "compareFn a b \<le> 0 \<Longrightarrow> compareFn b a \<le> 0 \<Longrightarrow> score a = score b"
  by (auto simp add: compareFn_def split: if_splits)

lemma compareFn_same_score: "score a = score b \<Longrightarrow> compareFn a b \<le> 0"
  by (auto simp add: compareFn_def)

lemma set_insert_by: "set (insert_by cmp x ys) = insert x (set ys)"
  by (induction ys) auto

lemma mset_insert_by: "mset (insert_by cmp x ys) = add_mset x (mset ys)"
  by (induction ys) auto

lemma mset_array_sort: "mset (array_sort cmp xs) = mset xs"
  by (induction xs) (simp_all add: array_sort_def mset_insert_by)

lemma sorted_insert_by:
  "sorted_wrt (\<lambda>a b. compareFn a b \<le> 0) ys \<Longrightarrow>
     sorted_wrt (\<lambda>a b. compareFn a b \<le> 0) (insert_by compareFn x ys)"
proof (induction ys)
  case Nil
  then show ?case by simp
next
  case (Cons y ys)
  show ?case
  proof (cases "compareFn x y \<le> 0")
    case True
    then have "\<forall>z\<in>set ys. compareFn x z \<le> 0"
      using Cons.prems compareFn_trans by auto
    with True Cons.prems show ?thesis by simp
  next
    case False
    then have "compareFn y x \<le> 0" using compareFn_total by blast
    with False Cons show ?thesis by (auto simp add: set_insert_by)
  qed
qed

lemma sorted_array_sort: "sorted_wrt (\<lambda>a b. compareFn a b \<le> 0) (array_sort compareFn xs)"
  by (induction xs) (simp_all add: array_sort_def sorted_insert_by)

lemma filter_insert_by:
  "filter (\<lambda>c. score c = k) (insert_by compareFn x ys) = filter (\<lambda>c. score c = k) (x # ys)"
proof (induction ys)
  case Nil
  then show ?case by simp
next
  case (Cons y ys)
  show ?case
  proof (cases "compareFn x y \<le> 0")
    case True
    then show ?thesis by simp
  next
    case False
    then have "score x \<noteq> score y" using compareFn_same_score by blast
    with False Cons show ?thesis by auto
  qed
qed

lemma filter_array_sort:
  "filter (\<lambda>c. score c = k) (array_sort compareFn xs) = filter (\<lambda>c. score c = k) xs"
proof (induction xs)
  case Nil
  then show ?case by (simp add: array_sort_def)
next
  case (Cons x xs)
  have "filter (\<lambda>c. score c = k) (array_sort compareFn (x # xs)) =
        filter (\<lambda>c. score c = k) (x # array_sort compareFn xs)"
    by (simp add: array_sort_def filter_insert_by del: filter.simps)
  with Cons show ?case by simp
qed

lemma sorted_before_array_sort: "sorted_wrt before (array_sort compareFn xs)"
proof -
  have "(\<lambda>a b. compareFn a b \<le> 0) = before"
    by (intro ext) (rule compareFn_before)
  with sorted_array_sort [of xs] show ?thesis by simp
qed

lemma scored_first:
  "sorted_wrt before xs \<Longrightarrow>
     xs = filter (\<lambda>c. score c \<noteq> None) xs @ filter (\<lambda>c. score c = None) xs"
proof (induction xs)
  case Nil
  then show ?case by simp
next
  case (Cons x xs)
  show ?case
  proof (cases "score x")
    case None
    with Cons.prems have "\<forall>y\<in>set xs. score y = None"
      by (auto simp add: before_def split: option.splits)
    then have "filter (\<lambda>c. score c \<noteq> None) xs = []" and "filter (\<lambda>c. score c = None) xs = xs"
      by (simp_all add: filter_empty_conv filter_id_conv)
    with None show ?thesis by simp
  next
    case (Some v)
    with Cons show ?thesis by simp
  qed
qed

text \<open>
  C8. \<open>getSemanticSearchResult\<close> returns the result records of the spans in the order
  of the sorted spans. The sorted spans are the spans of the response, each as often as
  there; they are in the order of \<open>before\<close>: the spans with a score first, by
  non-increasing score, then the spans without a score; and the sort is stable: the
  spans of one score, and the spans without a score, keep the order they had in the
  response.
\<close>

theorem getSemanticSearchResult_sorted:
  "getSemanticSearchResult path_join reporef code_spans =
     map (codeSpan_embedding path_join reporef) (sortedCodeSymbols code_spans)
   \<and> mset (sortedCodeSymbols code_spans) = mset code_spans
   \<and> sorted_wrt before (sortedCodeSymbols code_spans)
   \<and> sortedCodeSymbols code_spans =
       filter (\<lambda>c. score c \<noteq> None) (sortedCodeSymbols code_spans) @
       filter (\<lambda>c. score c = None) code_spans
   \<and> (\<forall>k. filter (\<lambda>c. score c = k) (sortedCodeSymbols code_spans) =
            filter (\<lambda>c. score c = k) code_spans)"
proof -
  have s: "sorted_wrt before (sortedCodeSymbols code_spans)"
    by (simp add: sortedCodeSymbols_def sorted_before_array_sort)
  have f: "filter (\<lambda>c. score c = k) (sortedCodeSymbols code_spans) =
      filter (\<lambda>c. score c = k) code_spans" for k
    by (simp add: sortedCodeSymbols_def filter_array_sort)
  have "sortedCodeSymbols code_spans =
       filter (\<lambda>c. score c \<noteq> None) (sortedCodeSymbols code_spans) @
       filter (\<lambda>c. score c = None) code_spans"
    using scored_first [OF s] f [of None] by simp
  moreover have "mset (sortedCodeSymbols code_spans) = mset code_spans"
    by (simp add: sortedCodeSymbols_def mset_array_sort)
  moreover have "getSemanticSearchResult path_join reporef code_spans =
     map (codeSpan_embedding path_join reporef) (sortedCodeSymbols code_spans)"
    by (simp add: getSemanticSearchResult_def)
  ultimately show ?thesis using s f by blast
qed

end
